theory Spec2Isabelle
  imports Main "HOL-Library.Finite_Map" "HOL-Library.AList"
begin

section \<open>Data model of \<^verbatim>\<open>search.py\<close>\<close>

text \<open>
  The dataclass \<^verbatim>\<open>Item\<close> has the fields \<^verbatim>\<open>item\<close> (the name), \<^verbatim>\<open>data\<close>
  (\<^verbatim>\<open>Optional[List[str]]\<close>, the variants) and \<^verbatim>\<open>aspects\<close> (\<^verbatim>\<open>Dict[str, int]\<close>).
  A Python dict is finite and two dicts are equal when they hold the same keys with the same
  values, whatever the insertion order; a finite map has exactly this equality, so
  \<^verbatim>\<open>==\<close> on dicts is \<open>=\<close> on \<open>fmap\<close>, \<^verbatim>\<open>len(d)\<close> is the number of keys
  \<open>fcard (fmdom d)\<close> and \<^verbatim>\<open>k in d\<close> is \<open>k |\<in>| fmdom d\<close>. The dataclass decorator is used with its defaults, so it
  generates \<^verbatim>\<open>__eq__\<close> comparing the three fields: \<^verbatim>\<open>==\<close> on Items is \<open>=\<close> on the
  record. Python integers are unbounded, hence \<open>int\<close>.
\<close>

record Item =
  item :: string
  data :: "string list option"
  aspects :: "(string, int) fmap"

text \<open>The exceptions the parsing code can raise: \<^verbatim>\<open>split[1]\<close> on a one-element list and
  \<^verbatim>\<open>int(...)\<close> on a string that is no integer literal.\<close>

datatype error = IndexError | ValueError

section \<open>\<^verbatim>\<open>Item.from_raw\<close>\<close>

text \<open>\<^verbatim>\<open>str.partition(sep)\<close>: split at the first occurrence of \<open>sep\<close>. \<open>find_first\<close>
  returns the text before and after that occurrence, or \<open>None\<close> when there is none; the
  separator used by the program is the non-empty constant \<^verbatim>\<open>" --- "\<close>.\<close>

fun find_first :: "string \<Rightarrow> string \<Rightarrow> (string \<times> string) option" where
  "find_first sep [] = (if sep = [] then Some ([], []) else None)"
| "find_first sep (c # cs) =
     (if take (length sep) (c # cs) = sep then Some ([], drop (length sep) (c # cs))
      else (case find_first sep cs of
              None \<Rightarrow> None
            | Some (b, a) \<Rightarrow> Some (c # b, a)))"

definition partition_str :: "string \<Rightarrow> string \<Rightarrow> string \<times> string \<times> string" where
  "partition_str s sep =
     (case find_first sep s of
        None \<Rightarrow> (s, [], [])
      | Some (b, a) \<Rightarrow> (b, sep, a))"

definition separator :: string where
  "separator = '' --- ''"

text \<open>\<^verbatim>\<open>str.split(x, " ", 1)\<close>: at most one split, at the first space; a string without a
  space comes back as the one-element list \<^verbatim>\<open>[x]\<close>.\<close>

definition split1 :: "string \<Rightarrow> string list" where
  "split1 x =
     (if CHR '' '' \<in> set x
      then [takeWhile (\<lambda>c. c \<noteq> CHR '' '') x, tl (dropWhile (\<lambda>c. c \<noteq> CHR '' '') x)]
      else [x])"

text \<open>
  The builtin \<^verbatim>\<open>int(s)\<close> in base ten. A string is the list of the bytes of its UTF-8
  encoding; \<^verbatim>\<open>partition\<close> and \<^verbatim>\<open>split\<close> with their ASCII separators cut a string at the
  same places in both readings.

  \<^verbatim>\<open>int\<close> first brings the string to ASCII: an ASCII character stays, a white-space
  character beyond ASCII becomes a space, a decimal digit of any script becomes the ASCII
  digit of its value, and any other character makes the call fail. \<open>unicode_spaces\<close> are
  the white-space code points beyond ASCII; \<open>decimal_zeros\<close> are the code points beyond
  ASCII of the digits zero, each followed by its digits one to nine (the decimal digits of
  Unicode 14.0, the table of CPython 3.11; other releases differ in the scripts they know).
  \<open>decode1\<close> reads the code point of a multi-byte UTF-8 sequence from its lead byte and
  the bytes after it, and gives the number of continuation bytes; a byte list that is not
  UTF-8 is no string and makes the model fail.
\<close>

definition unicode_spaces :: "nat list" where
  "unicode_spaces =
    [0x85, 0xA0, 0x1680, 0x2000, 0x2001, 0x2002, 0x2003, 0x2004,
     0x2005, 0x2006, 0x2007, 0x2008, 0x2009, 0x200A, 0x2028, 0x2029,
     0x202F, 0x205F, 0x3000]"

definition decimal_zeros :: "nat list" where
  "decimal_zeros =
    [0x660, 0x6F0, 0x7C0, 0x966, 0x9E6, 0xA66, 0xAE6, 0xB66,
     0xBE6, 0xC66, 0xCE6, 0xD66, 0xDE6, 0xE50, 0xED0, 0xF20,
     0x1040, 0x1090, 0x17E0, 0x1810, 0x1946, 0x19D0, 0x1A80, 0x1A90,
     0x1B50, 0x1BB0, 0x1C40, 0x1C50, 0xA620, 0xA8D0, 0xA900, 0xA9D0,
     0xA9F0, 0xAA50, 0xABF0, 0xFF10, 0x104A0, 0x10D30, 0x11066, 0x110F0,
     0x11136, 0x111D0, 0x112F0, 0x11450, 0x114D0, 0x11650, 0x116C0, 0x11730,
     0x118E0, 0x11950, 0x11C50, 0x11D50, 0x11DA0, 0x16A60, 0x16AC0, 0x16B50,
     0x1D7CE, 0x1D7D8, 0x1D7E2, 0x1D7EC, 0x1D7F6, 0x1E140, 0x1E2F0, 0x1E950,
     0x1FBF0]"

definition decimal_digit :: "nat \<Rightarrow> nat option" where
  "decimal_digit cp =
     (case filter (\<lambda>z. z \<le> cp \<and> cp < z + 10) decimal_zeros of
        [] \<Rightarrow> None
      | z # _ \<Rightarrow> Some (cp - z))"

definition ascii_of :: "nat \<Rightarrow> char option" where
  "ascii_of cp =
     (if cp < 128 then None
      else if cp \<in> set unicode_spaces then Some CHR '' ''
      else (case decimal_digit cp of
              None \<Rightarrow> None
            | Some v \<Rightarrow> Some (''0123456789'' ! v)))"

definition continuation :: "char \<Rightarrow> bool" where
  "continuation c = (128 \<le> (of_char c :: nat) \<and> (of_char c :: nat) < 192)"

definition cont_bits :: "char \<Rightarrow> nat" where
  "cont_bits c = (of_char c :: nat) - 128"

definition decode1 :: "char \<Rightarrow> string \<Rightarrow> (nat \<times> nat) option" where
  "decode1 c cs =
     (let b = (of_char c :: nat) in
      if 192 \<le> b \<and> b < 224 then
        (case cs of
           c1 # _ \<Rightarrow>
             if continuation c1 then Some ((b - 192) * 64 + cont_bits c1, 1) else None
         | _ \<Rightarrow> None)
      else if 224 \<le> b \<and> b < 240 then
        (case cs of
           c1 # c2 # _ \<Rightarrow>
             if continuation c1 \<and> continuation c2
             then Some (((b - 224) * 64 + cont_bits c1) * 64 + cont_bits c2, 2) else None
         | _ \<Rightarrow> None)
      else if 240 \<le> b \<and> b < 248 then
        (case cs of
           c1 # c2 # c3 # _ \<Rightarrow>
             if continuation c1 \<and> continuation c2 \<and> continuation c3
             then Some ((((b - 240) * 64 + cont_bits c1) * 64 + cont_bits c2) * 64
                          + cont_bits c3, 3)
             else None
         | _ \<Rightarrow> None)
      else None)"

fun to_ascii :: "string \<Rightarrow> string option" where
  "to_ascii [] = Some []"
| "to_ascii (c # cs) =
     (if (of_char c :: nat) < 128 then map_option (Cons c) (to_ascii cs)
      else (case decode1 c cs of
              None \<Rightarrow> None
            | Some (cp, n) \<Rightarrow>
                (case ascii_of cp of
                   None \<Rightarrow> None
                 | Some a \<Rightarrow> map_option (Cons a) (to_ascii (drop n cs)))))"

text \<open>
  The ASCII string is then read: surrounding whitespace (tab, line feed, vertical tab, form
  feed, carriage return, space) is stripped, one sign is allowed, then at least one digit,
  with single underscores allowed between digits only. \<open>None\<close> stands for
  \<^verbatim>\<open>ValueError\<close>. The interpreter's configurable limit on the number of digits is not
  part of the model.
\<close>

definition py_isspace :: "char \<Rightarrow> bool" where
  "py_isspace c = (c = CHR 0x09 \<or> c = CHR 0x0A \<or> c = CHR 0x0B \<or> c = CHR 0x0C
                   \<or> c = CHR 0x0D \<or> c = CHR '' '')"

definition py_strip :: "string \<Rightarrow> string" where
  "py_strip s = rev (dropWhile py_isspace (rev (dropWhile py_isspace s)))"

definition is_digit :: "char \<Rightarrow> bool" where
  "is_digit c = (48 \<le> (of_char c :: nat) \<and> (of_char c :: nat) \<le> 57)"

definition digit_val :: "char \<Rightarrow> nat" where
  "digit_val c = (of_char c :: nat) - 48"

fun digits_acc :: "nat \<Rightarrow> string \<Rightarrow> nat option" where
  "digits_acc n [] = Some n"
| "digits_acc n [c] = (if is_digit c then Some (10 * n + digit_val c) else None)"
| "digits_acc n (c # d # ds) =
     (if c = CHR ''_''
      then (if is_digit d then digits_acc (10 * n + digit_val d) ds else None)
      else if is_digit c then digits_acc (10 * n + digit_val c) (d # ds)
      else None)"

definition py_digits :: "string \<Rightarrow> nat option" where
  "py_digits s =
     (case s of
        [] \<Rightarrow> None
      | c # cs \<Rightarrow> if is_digit c then digits_acc (digit_val c) cs else None)"

definition ascii_int :: "string \<Rightarrow> int option" where
  "ascii_int s =
     (case py_strip s of
        [] \<Rightarrow> None
      | c # cs \<Rightarrow>
          if c = CHR ''-'' then map_option (\<lambda>n. - int n) (py_digits cs)
          else if c = CHR ''+'' then map_option int (py_digits cs)
          else map_option int (py_digits (c # cs)))"

definition py_int :: "string \<Rightarrow> int option" where
  "py_int s = (case to_ascii s of None \<Rightarrow> None | Some t \<Rightarrow> ascii_int t)"

text \<open>
  The dict comprehension
  \<^verbatim>\<open>{split[1]: int(split[0]) for split in map(lambda x: str.split(x, " ", 1), asp)}\<close>.
  The key expression is evaluated before the value expression, so a string without a space
  raises \<^verbatim>\<open>IndexError\<close> before \<^verbatim>\<open>int\<close> is tried. A key that is stored again keeps its
  place and takes the new value, which is \<open>fmupd\<close>. The first failing string ends the
  comprehension.
\<close>

fun build_aspects :: "(string, int) fmap \<Rightarrow> string list \<Rightarrow> error + (string, int) fmap" where
  "build_aspects d [] = Inr d"
| "build_aspects d (x # xs) =
     (let split = split1 x in
      if length split \<le> 1 then Inl IndexError
      else (case py_int (split ! 0) of
              None \<Rightarrow> Inl ValueError
            | Some n \<Rightarrow> build_aspects (fmupd (split ! 1) n d) xs))"

definition from_raw :: "string \<Rightarrow> string list \<Rightarrow> error + Item" where
  "from_raw name asp =
     (case partition_str name separator of
        (name', _, data') \<Rightarrow>
          (case build_aspects fmempty asp of
             Inl e \<Rightarrow> Inl e
           | Inr a \<Rightarrow>
               Inr \<lparr>item = name',
                    data = (if data' \<noteq> [] then Some [data'] else None),
                    aspects = a\<rparr>))"

section \<open>\<^verbatim>\<open>load_aspects\<close>\<close>

text \<open>
  The argument \<^verbatim>\<open>item_dict\<close> is read through \<^verbatim>\<open>item_dict.items()\<close> only, so it is the
  list of its (key, value) pairs in insertion order. \<^verbatim>\<open>raw\<close> is built completely before
  the deduplication starts: the first record that fails to parse raises and nothing is
  returned.
\<close>

fun parse_all :: "(string \<times> string list) list \<Rightarrow> error + Item list" where
  "parse_all [] = Inr []"
| "parse_all (pair # rest) =
     (case from_raw (fst pair) (snd pair) of
        Inl e \<Rightarrow> Inl e
      | Inr it \<Rightarrow> (case parse_all rest of
                    Inl e \<Rightarrow> Inl e
                  | Inr its \<Rightarrow> Inr (it # its)))"

text \<open>The placeholder written for a record without variants.\<close>

definition data_or_placeholder :: "Item \<Rightarrow> string list" where
  "data_or_placeholder it = (case data it of None \<Rightarrow> [''None''] | Some d \<Rightarrow> d)"

text \<open>
  The inner loop \<^verbatim>\<open>for v in vl\<close>: the first \<open>v\<close> with equal aspects receives the data of
  the incoming item (\<^verbatim>\<open>v.data += item.data\<close>, after both were replaced by
  \<^verbatim>\<open>['None']\<close> where they were \<^verbatim>\<open>None\<close>) and the loop breaks. \<open>None\<close> is
  \<^verbatim>\<open>found = False\<close>. Every Item object sits in one group at one place, so updating the
  object is updating that place of the list.
\<close>

fun merge_into :: "Item list \<Rightarrow> Item \<Rightarrow> Item list option" where
  "merge_into [] it = None"
| "merge_into (v # vl) it =
     (if aspects v \<noteq> aspects it
      then (case merge_into vl it of None \<Rightarrow> None | Some vl' \<Rightarrow> Some (v # vl'))
      else Some (v\<lparr>data := Some (data_or_placeholder v @ data_or_placeholder it)\<rparr> # vl))"

text \<open>
  One round of \<^verbatim>\<open>for item in raw\<close>. The dict \<^verbatim>\<open>out\<close> keeps insertion order and is
  flattened in that order at the end, so it is an association list: \<open>AList.update\<close>
  replaces the value of a present key in place and appends an absent key at the end, as
  assignment to a dict entry does.
\<close>

definition dedupe_step :: "(string \<times> Item list) list \<Rightarrow> Item \<Rightarrow> (string \<times> Item list) list" where
  "dedupe_step out it =
     (case map_of out (item it) of
        Some vl \<Rightarrow>
          (case merge_into vl it of
             Some vl' \<Rightarrow> AList.update (item it) vl' out
           | None \<Rightarrow> AList.update (item it) (vl @ [it]) out)
      | None \<Rightarrow> AList.update (item it) [it] out)"

definition dedupe :: "Item list \<Rightarrow> (string \<times> Item list) list" where
  "dedupe raw = foldl dedupe_step [] raw"

definition load_aspects :: "(string \<times> string list) list \<Rightarrow> error + Item list" where
  "load_aspects item_dict =
     (case parse_all item_dict of
        Inl e \<Rightarrow> Inl e
      | Inr raw \<Rightarrow> Inr (concat (map snd (dedupe raw))))"

section \<open>\<^verbatim>\<open>search_aspects\<close>\<close>

text \<open>
  The list \<^verbatim>\<open>items\<close> holds references to Item objects, and the same reference may occur
  more than once. A store maps references to the objects' current values and holds the list
  itself; the function reads both and returns the store it ends with, next to its result.
\<close>

type_synonym ref = nat

record store =
  objs :: "ref \<Rightarrow> Item"
  items :: "ref list"

text \<open>\<^verbatim>\<open>x in out\<close> on a list: some element is the same object or compares equal.\<close>

definition py_in :: "store \<Rightarrow> ref \<Rightarrow> ref list \<Rightarrow> bool" where
  "py_in s x out = list_ex (\<lambda>y. y = x \<or> objs s y = objs s x) out"

text \<open>
  \<^verbatim>\<open>out.extend(filter(lambda x: x not in out, found))\<close>: the filter is lazy and
  \<^verbatim>\<open>extend\<close> appends the elements one at a time as it draws them, so each test sees the
  elements appended before it.
\<close>

fun extend_new :: "store \<Rightarrow> ref list \<Rightarrow> ref list \<Rightarrow> ref list \<times> store" where
  "extend_new s out [] = (out, s)"
| "extend_new s out (x # found) =
     (if py_in s x out then extend_new s out found
      else extend_new s (out @ [x]) found)"

definition has_all :: "store \<Rightarrow> string list \<Rightarrow> ref \<Rightarrow> bool" where
  "has_all s search i = list_all (\<lambda>a. a |\<in>| fmdom (aspects (objs s i))) search"

definition same_size :: "store \<Rightarrow> string list \<Rightarrow> ref \<Rightarrow> bool" where
  "same_size s search i = (fcard (fmdom (aspects (objs s i))) = length search)"

fun search_loop :: "store \<Rightarrow> bool \<Rightarrow> ref list \<Rightarrow> string list list \<Rightarrow> ref list \<times> store" where
  "search_loop s perfect out [] = (out, s)"
| "search_loop s perfect out (search # searches) =
     (let found = filter (has_all s search) (items s);
          found = (if perfect then filter (same_size s search) found else found);
          (out', s') = extend_new s out found
      in search_loop s' perfect out' searches)"

definition search_aspects ::
  "string list \<Rightarrow> store \<Rightarrow> bool \<Rightarrow> bool \<Rightarrow> ref list \<times> store" where
  "search_aspects to_find s or_find perfect =
     search_loop s perfect []
       (if or_find then map (\<lambda>x. [x]) to_find else [to_find])"

text \<open>The elements one group of the loop draws from \<^verbatim>\<open>items\<close>: the \<^verbatim>\<open>all(...)\<close>
  filter, and after it the length filter when \<^verbatim>\<open>perfect\<close> is set.\<close>

definition group_found :: "store \<Rightarrow> bool \<Rightarrow> string list \<Rightarrow> ref list" where
  "group_found s perfect g =
     (if perfect then filter (same_size s g) (filter (has_all s g) (items s))
      else filter (has_all s g) (items s))"

section \<open>Notions used in the statements\<close>

text \<open>The two parts of a weight string: the text before its first space and the text
  after it. \<open>bad_weight\<close> holds of the strings on which the dict comprehension raises.\<close>

definition weight_number :: "string \<Rightarrow> string" where
  "weight_number w = takeWhile (\<lambda>c. c \<noteq> CHR '' '') w"

definition weight_key :: "string \<Rightarrow> string" where
  "weight_key w = tl (dropWhile (\<lambda>c. c \<noteq> CHR '' '') w)"


text \<open>The parsed records that carry a given name and a given aspects dict, in input order,
  and the pair by which \<^verbatim>\<open>load_aspects\<close> tells entries apart.\<close>

definition contributing :: "Item list \<Rightarrow> string \<Rightarrow> (string, int) fmap \<Rightarrow> Item list" where
  "contributing rs n a = filter (\<lambda>r. item r = n \<and> aspects r = a) rs"

definition entry_key :: "Item \<Rightarrow> string \<times> (string, int) fmap" where
  "entry_key e = (item e, aspects e)"

text \<open>
  The invariant of the deduplication loop. After the records \<open>rs\<close> the dict \<^verbatim>\<open>out\<close>
  has pairwise different keys; the group stored under a name holds entries of that name with
  pairwise different aspects, each with at least one contributing record and with the data
  \<open>merged_data\<close> gives for its contributing records (the data of the record when there is
  one, the concatenation with placeholders when there are more); and every record has its
  aspects in the group of its name. \<open>new_group\<close> is the group the loop body stores under
  the name of the incoming record, \<open>merge_one\<close> what the inner loop does to one entry.
\<close>

definition merged_data :: "Item list \<Rightarrow> string list option" where
  "merged_data C = (case C of [r] \<Rightarrow> data r | _ \<Rightarrow> Some (concat (map data_or_placeholder C)))"

definition merge_one :: "Item \<Rightarrow> Item \<Rightarrow> Item" where
  "merge_one r v =
     (if aspects v = aspects r
      then v\<lparr>data := Some (data_or_placeholder v @ data_or_placeholder r)\<rparr> else v)"

definition group_ok :: "Item list \<Rightarrow> string \<Rightarrow> Item list \<Rightarrow> bool" where
  "group_ok rs n vl \<longleftrightarrow>
     distinct (map aspects vl) \<and>
     (\<forall>v\<in>set vl. item v = n \<and> contributing rs n (aspects v) \<noteq> [] \<and>
                  data v = merged_data (contributing rs n (aspects v)))"

definition dedupe_inv :: "Item list \<Rightarrow> (string \<times> Item list) list \<Rightarrow> bool" where
  "dedupe_inv rs out \<longleftrightarrow>
     distinct (map fst out) \<and>
     (\<forall>n vl. map_of out n = Some vl \<longrightarrow> group_ok rs n vl) \<and>
     (\<forall>r\<in>set rs. \<exists>vl. map_of out (item r) = Some vl \<and> (\<exists>v\<in>set vl. aspects v = aspects r))"

definition new_group :: "(string \<times> Item list) list \<Rightarrow> Item \<Rightarrow> Item list" where
  "new_group out r =
     (case map_of out (item r) of
        None \<Rightarrow> [r]
      | Some vl \<Rightarrow> (case merge_into vl r of Some vl' \<Rightarrow> vl' | None \<Rightarrow> vl @ [r]))"

section \<open>Example data\<close>

text \<open>Two entries of the catalogue and a store with three objects, the third a separate
  object with the same field values as the first.\<close>

definition water :: Item where
  "water = \<lparr>item = ''Water'', data = None, aspects = fmupd ''aqua'' 2 fmempty\<rparr>"

definition lava :: Item where
  "lava = \<lparr>item = ''Lava'', data = None, aspects = fmupd ''ignis'' 1 (fmupd ''aqua'' 2 fmempty)\<rparr>"

definition demo_store :: store where
  "demo_store = \<lparr>objs = (\<lambda>r. if r = 1 then lava else water), items = [0, 1, 2]\<rparr>"

text \<open>Two raw inputs, as lists of the (key, value) pairs of the decoded JSON object: the
  same name with the same aspects, once without and once with a variant; and the same name
  with different aspects.\<close>

definition water_raw :: "(string \<times> string list) list" where
  "water_raw = [(''Water'', [''2 aqua'']), (''Water --- bucket'', [''2 aqua''])]"

definition steam_raw :: "(string \<times> string list) list" where
  "steam_raw = [(''Water'', [''2 aqua'']), (''Water --- hot'', [''2 aqua'', ''1 ignis''])]"

text \<open>A catalogue of two entries, as raw input and as the store holding the entries that
  \<^verbatim>\<open>load_aspects\<close> makes of it.\<close>

definition catalogue_raw :: "(string \<times> string list) list" where
  "catalogue_raw = [(''Water'', [''2 aqua'']), (''Lava'', [''2 aqua'', ''1 ignis''])]"

definition catalogue_store :: store where
  "catalogue_store = \<lparr>objs = (\<lambda>r. if r = 1 then lava else water), items = [0, 1]\<rparr>"

section \<open>Properties of \<^verbatim>\<open>search_aspects\<close>\<close>

lemma extend_new_store: "snd (extend_new s out xs) = s"
  by (induction xs arbitrary: out) auto

lemma extend_new_pair: "extend_new s out xs = (fst (extend_new s out xs), s)"
  by (metis extend_new_store prod.collapse)

lemma search_loop_Cons:
  "search_loop s perfect out (g # gs) =
     search_loop s perfect (fst (extend_new s out (group_found s perfect g))) gs"
proof -
  have "extend_new s out (group_found s perfect g) = (fst (extend_new s out (group_found s perfect g)), s)"
    by (rule extend_new_pair)
  then have "(case extend_new s out (group_found s perfect g) of (out', s') \<Rightarrow> search_loop s' perfect out' gs)
     = search_loop s perfect (fst (extend_new s out (group_found s perfect g))) gs"
    by (metis case_prod_conv)
  then show ?thesis
    unfolding search_loop.simps Let_def group_found_def by simp
qed

declare search_loop.simps(2) [simp del]

lemma search_loop_store: "snd (search_loop s perfect out ss) = s"
  by (induction ss arbitrary: out) (simp_all only: search_loop_Cons search_loop.simps(1) snd_conv)

lemma py_in_iff: "py_in s x out \<longleftrightarrow> objs s x \<in> objs s ` set out"
  unfolding py_in_def list_ex_iff image_iff by metis

lemma extend_new_distinct:
  "distinct (map (objs s) out) \<Longrightarrow> distinct (map (objs s) (fst (extend_new s out xs)))"
  by (induction xs arbitrary: out) (auto simp: py_in_iff)

lemma extend_new_values:
  "objs s ` set (fst (extend_new s out xs)) = objs s ` (set out \<union> set xs)"
  by (induction xs arbitrary: out) (auto simp: py_in_iff)

lemma extend_new_mono: "set out \<subseteq> set (fst (extend_new s out xs))"
proof (induction xs arbitrary: out)
  case Nil show ?case by simp
next
  case (Cons x xs)
  show ?case using Cons[of out] Cons[of "out @ [x]"] by auto
qed

lemma extend_new_filter:
  assumes "\<And>x y. objs s x = objs s y \<Longrightarrow> P x = P y"
  shows "fst (extend_new s (filter P out) (filter P xs)) = filter P (fst (extend_new s out xs))"
proof (induction xs arbitrary: out)
  case Nil show ?case by simp
next
  case (Cons x xs)
  have in_eq: "P x \<Longrightarrow> py_in s x (filter P out) = py_in s x out"
  proof -
    assume px: "P x"
    have "\<And>y. objs s y = objs s x \<Longrightarrow> P y" using assms px by blast
    then show ?thesis unfolding py_in_def list_ex_iff by auto
  qed
  show ?case
  proof (cases "P x")
    case True
    then show ?thesis using Cons[of out] Cons[of "out @ [x]"] in_eq by simp
  next
    case False
    then show ?thesis using Cons[of out] Cons[of "out @ [x]"] by simp
  qed
qed

lemma search_loop_distinct:
  "distinct (map (objs s) out) \<Longrightarrow> distinct (map (objs s) (fst (search_loop s perfect out gs)))"
  by (induction gs arbitrary: out) (simp_all only: search_loop_Cons search_loop.simps(1) fst_conv extend_new_distinct)

lemma search_loop_mono: "set out \<subseteq> set (fst (search_loop s perfect out gs))"
proof (induction gs arbitrary: out)
  case Nil show ?case by simp
next
  case (Cons g gs)
  show ?case using Cons[of "fst (extend_new s out (group_found s perfect g))"] extend_new_mono[of out s "group_found s perfect g"]
    unfolding search_loop_Cons by blast
qed

lemmas demo_simps = demo_store_def water_def lava_def search_aspects_def search_loop_Cons
  group_found_def py_in_def has_all_def same_size_def fcard_finsert_if fcard_fempty

lemma has_all_value: "objs s x = objs s y \<Longrightarrow> has_all s g x = has_all s g y"
  by (simp add: has_all_def)

lemma same_size_value: "objs s x = objs s y \<Longrightarrow> same_size s g x = same_size s g y"
  by (simp add: same_size_def)

lemma group_found_filter:
  "group_found s perfect g = filter (\<lambda>i. has_all s g i \<and> (perfect \<longrightarrow> same_size s g i)) (items s)"
  by (auto simp: group_found_def intro: filter_cong)

lemma group_result:
  "fst (extend_new s [] (group_found s perfect g)) =
     filter (\<lambda>i. has_all s g i \<and> (perfect \<longrightarrow> same_size s g i)) (fst (extend_new s [] (items s)))"
proof -
  let ?P = "\<lambda>i. has_all s g i \<and> (perfect \<longrightarrow> same_size s g i)"
  have "\<And>x y. objs s x = objs s y \<Longrightarrow> ?P x = ?P y"
    using has_all_value same_size_value by metis
  then have "fst (extend_new s (filter ?P []) (filter ?P (items s))) = filter ?P (fst (extend_new s [] (items s)))"
    by (rule extend_new_filter)
  then show ?thesis by (simp add: group_found_filter)
qed

lemma search_conj:
  "fst (search_aspects to_find s False perfect) =
     filter (\<lambda>i. has_all s to_find i \<and> (perfect \<longrightarrow> same_size s to_find i)) (fst (extend_new s [] (items s)))"
  by (simp add: search_aspects_def search_loop_Cons group_result)

lemma search_aspects_distinct_values:
  "distinct (map (objs s) (fst (search_aspects to_find s or_find perfect)))"
  unfolding search_aspects_def by (rule search_loop_distinct) simp


lemma has_all_iff: "has_all s g i \<longleftrightarrow> set g \<subseteq> fset (fmdom (aspects (objs s i)))"
  by (auto simp: has_all_def list_all_iff)

lemma exact_match_iff:
  assumes "distinct g"
  shows "has_all s g i \<and> same_size s g i \<longleftrightarrow> fset (fmdom (aspects (objs s i))) = set g"
proof
  assume h: "has_all s g i \<and> same_size s g i"
  let ?K = "fset (fmdom (aspects (objs s i)))"
  have sub: "set g \<subseteq> ?K" using h by (simp add: has_all_iff)
  have "card ?K = length g" using h by (simp add: same_size_def fcard.rep_eq)
  then have "card ?K = card (set g)" using assms by (simp add: distinct_card)
  then have "set g = ?K" using sub by (simp add: card_subset_eq)
  then show "?K = set g" by simp
next
  assume e: "fset (fmdom (aspects (objs s i))) = set g"
  then have "has_all s g i" by (simp add: has_all_iff)
  moreover have "same_size s g i"
    using e assms by (simp add: same_size_def fcard.rep_eq distinct_card)
  ultimately show "has_all s g i \<and> same_size s g i" by simp
qed

lemma py_in_ex: "py_in s x out \<longleftrightarrow> (\<exists>y\<in>set out. objs s y = objs s x)"
  unfolding py_in_def list_ex_iff by blast
lemma ex_value_image: "(\<exists>y\<in>A. objs s y = v) \<longleftrightarrow> v \<in> objs s ` A"
  by blast
lemma py_in_filter_value:
  assumes "\<And>x y. objs s x = objs s y \<Longrightarrow> P x = P y"
  shows "py_in s r (filter P xs) \<longleftrightarrow> P r \<and> py_in s r xs"
proof -
  have "\<And>y. objs s y = objs s r \<Longrightarrow> P y = P r" by (rule assms)
  then have "(\<exists>y\<in>set (filter P xs). objs s y = objs s r) \<longleftrightarrow> P r \<and> (\<exists>y\<in>set xs. objs s y = objs s r)"
    unfolding set_filter by blast
  then show ?thesis unfolding py_in_ex .
qed
lemma py_in_firsts: "py_in s r (fst (extend_new s [] xs)) \<longleftrightarrow> (\<exists>x\<in>set xs. objs s x = objs s r)"
  unfolding py_in_ex ex_value_image extend_new_values by simp


text \<open>
  Claim C1, as the code has it. With \<^verbatim>\<open>or_find\<close> set, an empty \<^verbatim>\<open>to_find\<close> gives no
  group at all and the result is the empty list, whatever \<^verbatim>\<open>perfect\<close> is. With
  \<^verbatim>\<open>or_find\<close> unset the one group is the empty list: every entry passes the
  \<^verbatim>\<open>all(...)\<close> test, so without \<^verbatim>\<open>perfect\<close> the result is the whole entry list with
  equal entries dropped, and with \<^verbatim>\<open>perfect\<close> it is the entries without aspects.
\<close>

theorem search_aspects_empty_query:
  "search_aspects [] s True perfect = ([], s) \<and>
   fst (search_aspects [] s False False) = fst (extend_new s [] (items s)) \<and>
   fst (search_aspects [] s False True) =
     fst (extend_new s [] (filter (\<lambda>i. aspects (objs s i) = fmempty) (items s)))"
proof -
  have a: "search_aspects [] s True perfect = ([], s)" by (simp add: search_aspects_def)
  have b: "fst (search_aspects [] s False False) = fst (extend_new s [] (items s))"
    by (simp add: search_aspects_def search_loop_Cons group_found_def has_all_def)
  have "same_size s [] = (\<lambda>i. aspects (objs s i) = fmempty)"
    by (rule ext) (auto simp: same_size_def fmap_ext fmdom_notD fcard_0_eq)
  then have c: "fst (search_aspects [] s False True) =
     fst (extend_new s [] (filter (\<lambda>i. aspects (objs s i) = fmempty) (items s)))"
    by (simp add: search_aspects_def search_loop_Cons group_found_def has_all_def)
  from a b c show ?thesis by blast
qed

theorem search_aspects_empty_query_witness:
  "search_aspects [] demo_store True False = ([], demo_store) \<and>
   fst (search_aspects [] demo_store False False) = [0, 1] \<and>
   fst (search_aspects [] demo_store False True) = []"
  using search_aspects_empty_query [of demo_store False]
  by (simp add: demo_store_def water_def lava_def py_in_def)

text \<open>Claim C1 as stated fails without \<^verbatim>\<open>or_find\<close>: on the example store the empty query
  returns entries.\<close>

theorem search_aspects_empty_query_counterexample:
  "fst (search_aspects [] demo_store False False) = [0, 1] \<and>
   fst (search_aspects [] demo_store False False) \<noteq> []"
  by (simp add: demo_simps)

text \<open>
  Claim C2, as the code has it. \<^verbatim>\<open>x not in out\<close> compares with the generated
  \<^verbatim>\<open>__eq__\<close>, so deduplication is by value: the entries of a result are pairwise
  different in their fields, and of two separate objects equal in name, variants and aspects
  at most one is in a result.
\<close>

theorem search_aspects_dedup_by_value:
  "distinct (map (objs s) (fst (search_aspects to_find s or_find perfect))) \<and>
   (r1 \<noteq> r2 \<and> objs s r1 = objs s r2 \<and> r1 \<in> set (fst (search_aspects to_find s or_find perfect))
      \<longrightarrow> r2 \<notin> set (fst (search_aspects to_find s or_find perfect)))"
  using search_aspects_distinct_values [of s to_find or_find perfect]
  by (auto simp: distinct_map inj_on_def)

theorem search_aspects_dedup_by_value_witness:
  "fst (search_aspects [''aqua''] demo_store False False) = [0, 1] \<and>
   (0::nat) \<noteq> 2 \<and> objs demo_store 0 = objs demo_store 2 \<and>
   2 \<notin> set (fst (search_aspects [''aqua''] demo_store False False))"
  using search_aspects_dedup_by_value [of demo_store "[''aqua'']" False False 0 2]
  by (simp add: demo_simps)

text \<open>Claim C2 as stated fails: no query on any store returns two separate objects with
  equal fields.\<close>

theorem search_aspects_identity_counterexample:
  "objs demo_store 0 = objs demo_store 2 \<and>
   has_all demo_store [''aqua''] 0 \<and> has_all demo_store [''aqua''] 2 \<and>
   fst (search_aspects [''aqua''] demo_store False False) = [0, 1] \<and>
   \<not> (\<exists>to_find s or_find perfect r1 r2.
        r1 \<noteq> r2 \<and> objs s r1 = objs s r2 \<and>
        r1 \<in> set (fst (search_aspects to_find s or_find perfect)) \<and>
        r2 \<in> set (fst (search_aspects to_find s or_find perfect)))"
proof -
  have "\<not> (\<exists>to_find s or_find perfect r1 r2.
        r1 \<noteq> r2 \<and> objs s r1 = objs s r2 \<and>
        r1 \<in> set (fst (search_aspects to_find s or_find perfect)) \<and>
        r2 \<in> set (fst (search_aspects to_find s or_find perfect)))"
    using search_aspects_distinct_values by (fastforce simp: distinct_map inj_on_def)
  moreover have "objs demo_store 0 = objs demo_store 2 \<and>
      has_all demo_store [''aqua''] 0 \<and> has_all demo_store [''aqua''] 2 \<and>
      fst (search_aspects [''aqua''] demo_store False False) = [0, 1]"
    by (simp add: demo_simps)
  ultimately show ?thesis by simp
qed

text \<open>
  Claim C10: \<^verbatim>\<open>search_aspects\<close> leaves its input as it was. The store it ends with has the
  same list \<^verbatim>\<open>items\<close> (same length, same order) and every object has the same name,
  variants and aspects as before.
\<close>

theorem search_aspects_read_only:
  "items (snd (search_aspects to_find s or_find perfect)) = items s \<and>
   objs (snd (search_aspects to_find s or_find perfect)) = objs s"
  by (simp add: search_aspects_def search_loop_store)

theorem search_aspects_read_only_witness:
  "items (snd (search_aspects [''aqua'', ''ignis''] demo_store True False)) = [0, 1, 2] \<and>
   objs (snd (search_aspects [''aqua'', ''ignis''] demo_store True False)) 1 = lava"
  using search_aspects_read_only [of "[''aqua'', ''ignis'']" demo_store True False]
  by (simp add: demo_store_def)

text \<open>When no name is repeated in \<^verbatim>\<open>to_find\<close>, the length test of the exact conjunctive
  query is the equality of the two sets: an entry of \<^verbatim>\<open>items\<close> is in the result
  (\<^verbatim>\<open>e in result\<close>) if and only if its keys are the requested names.\<close>

lemma exact_conjunctive_without_repeats:
  assumes "distinct to_find" and "r \<in> set (items s)"
  shows "py_in s r (fst (search_aspects to_find s False True))
           \<longleftrightarrow> fset (fmdom (aspects (objs s r))) = set to_find"
proof -
  let ?P = "\<lambda>i. has_all s to_find i \<and> (True \<longrightarrow> same_size s to_find i)"
  have val: "\<And>x y. objs s x = objs s y \<Longrightarrow> ?P x = ?P y"
    using has_all_value same_size_value by metis
  have "py_in s r (fst (search_aspects to_find s False True))
          \<longleftrightarrow> ?P r \<and> py_in s r (fst (extend_new s [] (items s)))"
    unfolding search_conj using val by (rule py_in_filter_value)
  moreover have "py_in s r (fst (extend_new s [] (items s)))"
    using assms(2) by (auto simp: py_in_firsts)
  ultimately show ?thesis using exact_match_iff [OF assms(1), of s r] by simp
qed

text \<open>
  Claim C6, as the code has it. For a non-empty \<^verbatim>\<open>to_find\<close>, every entry returned by the
  conjunctive query is returned by the disjunctive query with the same \<^verbatim>\<open>perfect\<close>,
  provided \<^verbatim>\<open>perfect\<close> is off or exactly one name is requested.
\<close>

theorem conjunctive_subset_disjunctive:
  assumes "to_find \<noteq> []" and "\<not> perfect \<or> length to_find = 1"
  shows "set (fst (search_aspects to_find s False perfect))
           \<subseteq> set (fst (search_aspects to_find s True perfect))"
proof (cases "length to_find = 1")
  case True
  then obtain x where "to_find = [x]" by (cases to_find) auto
  then show ?thesis by (simp add: search_aspects_def)
next
  case False
  then have np: "\<not> perfect" using assms(2) by simp
  obtain x xs where tf: "to_find = x # xs" using assms(1) by (cases to_find) auto
  let ?F = "fst (extend_new s [] (items s))"
  have "set (fst (search_aspects to_find s False perfect)) \<subseteq> set (filter (has_all s [x]) ?F)"
    using np by (auto simp: search_conj tf has_all_def)
  also have "filter (has_all s [x]) ?F = fst (extend_new s [] (group_found s perfect [x]))"
    using np by (simp add: group_result)
  also have "set \<dots> \<subseteq> set (fst (search_loop s perfect (fst (extend_new s [] (group_found s perfect [x]))) (map (\<lambda>x. [x]) xs)))"
    by (rule search_loop_mono)
  also have "\<dots> = set (fst (search_aspects to_find s True perfect))"
    by (simp add: search_aspects_def tf search_loop_Cons)
  finally show ?thesis .
qed

theorem conjunctive_subset_disjunctive_witness:
  "[''aqua'', ''ignis''] \<noteq> [] \<and>
   fst (search_aspects [''aqua'', ''ignis''] demo_store False False) = [1] \<and>
   fst (search_aspects [''aqua'', ''ignis''] demo_store True False) = [0, 1] \<and>
   set (fst (search_aspects [''aqua'', ''ignis''] demo_store False False))
     \<subseteq> set (fst (search_aspects [''aqua'', ''ignis''] demo_store True False))"
proof -
  have a: "[''aqua'', ''ignis''] \<noteq> []" by simp
  have b: "\<not> False \<or> length [''aqua'', ''ignis''] = 1" by simp
  have c: "fst (search_aspects [''aqua'', ''ignis''] demo_store False False) = [1]"
    by (simp add: demo_simps)
  have d: "fst (search_aspects [''aqua'', ''ignis''] demo_store True False) = [0, 1]"
    by (simp add: demo_simps)
  show ?thesis using conjunctive_subset_disjunctive [OF a b, of demo_store] a c d by simp
qed

text \<open>Claim C6 as stated fails with \<^verbatim>\<open>perfect\<close> set and two names: the exact conjunctive
  query returns the entry with exactly these two aspects, and the exact disjunctive query asks
  each singleton group for entries with one aspect.\<close>

theorem conjunctive_subset_disjunctive_counterexample:
  "[''aqua'', ''ignis''] \<noteq> [] \<and>
   fst (search_aspects [''aqua'', ''ignis''] demo_store False True) = [1] \<and>
   fst (search_aspects [''aqua'', ''ignis''] demo_store True True) = [0] \<and>
   \<not> set (fst (search_aspects [''aqua'', ''ignis''] demo_store False True))
        \<subseteq> set (fst (search_aspects [''aqua'', ''ignis''] demo_store True True))"
  by (simp add: demo_simps)

text \<open>
  Claim C7: conjunctive matching is antitone. When every name of \<open>S1\<close> is in \<open>S2\<close>, an
  entry holding every name of \<open>S2\<close> holds every name of \<open>S1\<close>, and every entry in the
  non-exact conjunctive result for \<open>S2\<close> is in the non-exact conjunctive result for \<open>S1\<close>.
\<close>

theorem conjunctive_antitone:
  assumes "set S1 \<subseteq> set S2"
  shows "(has_all s S2 r \<longrightarrow> has_all s S1 r) \<and>
         set (fst (search_aspects S2 s False False)) \<subseteq> set (fst (search_aspects S1 s False False))"
  using assms by (auto simp: search_conj has_all_iff)

theorem conjunctive_antitone_witness:
  "set [''aqua''] \<subseteq> set [''ignis'', ''aqua''] \<and>
   has_all demo_store [''ignis'', ''aqua''] 1 \<and> has_all demo_store [''aqua''] 1 \<and>
   fst (search_aspects [''ignis'', ''aqua''] demo_store False False) = [1] \<and>
   fst (search_aspects [''aqua''] demo_store False False) = [0, 1]"
proof -
  have a: "set [''aqua''] \<subseteq> set [''ignis'', ''aqua'']" by simp
  have b: "has_all demo_store [''ignis'', ''aqua''] 1" by (simp add: demo_simps)
  have c: "fst (search_aspects [''ignis'', ''aqua''] demo_store False False) = [1]"
    by (simp add: demo_simps)
  have d: "fst (search_aspects [''aqua''] demo_store False False) = [0, 1]"
    by (simp add: demo_simps)
  show ?thesis using conjunctive_antitone [OF a, of demo_store 1] a b c d by simp
qed

section \<open>Properties of \<^verbatim>\<open>Item.from_raw\<close>\<close>

lemma build_aspects_step:
  "build_aspects d (x # xs) =
     (if CHR '' '' \<notin> set x then Inl IndexError
      else case py_int (weight_number x) of
             None \<Rightarrow> Inl ValueError
           | Some n \<Rightarrow> build_aspects (fmupd (weight_key x) n d) xs)"
  by (simp add: split1_def weight_number_def weight_key_def nth_Cons' cong: option.case_cong)

declare build_aspects.simps(2) [simp del]











lemma py_int_examples:
  "py_int ''2'' = Some 2" "py_int ''-1_0'' = Some (- 10)" "py_int ''+07'' = Some 7"
  "py_int ''two'' = None" "py_int [] = None" "py_int ''+'' = None" "py_int ''1__0'' = None"
  "py_int ''_1'' = None" "py_int ''1_'' = None" "py_int ''2.0'' = None"
  by (simp_all add: py_int_def ascii_int_def py_strip_def py_isspace_def py_digits_def is_digit_def digit_val_def)

text \<open>Beyond ASCII: the Arabic-Indic digit two (U+0662), a full-width five (U+FF15) after a
  no-break space (U+00A0), a mathematical bold seven (U+1D7D5), and the superscript two
  (U+00B2), which is no decimal digit.\<close>

lemmas unicode_simps = py_int_def ascii_int_def py_strip_def py_isspace_def py_digits_def
  is_digit_def digit_val_def decode1_def continuation_def cont_bits_def ascii_of_def
  decimal_digit_def decimal_zeros_def unicode_spaces_def

lemma py_int_unicode_examples:
  "py_int [CHR 0xD9, CHR 0xA2] = Some 2"
  "py_int [CHR 0xC2, CHR 0xA0, CHR 0xEF, CHR 0xBC, CHR 0x95] = Some 5"
  "py_int [CHR 0xF0, CHR 0x9D, CHR 0x9F, CHR 0x95] = Some 7"
  "py_int [CHR 0xC2, CHR 0xB2] = None"
  by (simp_all add: unicode_simps)

lemmas parse_simps = from_raw_def partition_str_def separator_def build_aspects_step
  weight_number_def weight_key_def py_int_def ascii_int_def py_strip_def py_isspace_def py_digits_def
  is_digit_def digit_val_def

lemma find_first_Cons_None:
  "find_first sep (c # cs) = None \<longleftrightarrow>
     take (length sep) (c # cs) \<noteq> sep \<and> find_first sep cs = None"
  by (auto split: option.splits)

lemma find_first_None_prefix:
  "sep \<noteq> [] \<Longrightarrow> find_first sep (xs @ ys) = None \<Longrightarrow> find_first sep xs = None"
proof (induction xs)
  case Nil then show ?case by simp
next
  case (Cons c cs)
  from Cons.prems(2) have "find_first sep (c # (cs @ ys)) = None" by simp
  then have nt: "take (length sep) (c # cs @ ys) \<noteq> sep"
    and rest: "find_first sep (cs @ ys) = None"
    unfolding find_first_Cons_None by simp_all
  have "take (length sep) (c # cs) \<noteq> sep"
  proof
    assume e: "take (length sep) (c # cs) = sep"
    then have "length (take (length sep) (c # cs)) = length sep" by simp
    then have "length sep \<le> length (c # cs)" by simp
    then have "take (length sep) ((c # cs) @ ys) = take (length sep) (c # cs)"
      by (simp only: take_append) simp
    then show False using nt e by simp
  qed
  then show ?case using Cons.IH[OF Cons.prems(1) rest] by simp
qed

lemma find_first_self: "sep \<noteq> [] \<Longrightarrow> find_first sep sep = Some ([], [])"
  by (cases sep) simp_all

lemma find_first_at_end_gen:
  "find_first (p @ [z]) (X @ p) = None \<Longrightarrow> find_first (p @ [z]) (X @ p @ [z]) = Some (X, [])"
proof (induction X)
  case Nil show ?case by (simp add: find_first_self)
next
  case (Cons c cs)
  let ?sep = "p @ [z]"
  from Cons.prems have "find_first ?sep (c # (cs @ p)) = None" by simp
  then have nt: "take (length ?sep) (c # (cs @ p)) \<noteq> ?sep"
    and rest: "find_first ?sep (cs @ p) = None"
    unfolding find_first_Cons_None by simp_all
  have "length ?sep \<le> length (c # (cs @ p))" by simp
  then have "take (length ?sep) ((c # (cs @ p)) @ [z]) = take (length ?sep) (c # (cs @ p))"
    by (simp only: take_append) simp
  then have nt': "take (length ?sep) (c # (cs @ p @ [z])) \<noteq> ?sep"
    using nt by simp
  have "find_first ?sep (c # (cs @ p @ [z])) =
          (case find_first ?sep (cs @ p @ [z]) of None \<Rightarrow> None | Some (b, a) \<Rightarrow> Some (c # b, a))"
    using nt' by (simp only: find_first.simps(2) if_False)
  then show ?case using Cons.IH[OF rest] by simp
qed

lemma find_first_at_end:
  "find_first separator (X @ '' ---'') = None \<Longrightarrow> find_first separator (X @ separator) = Some (X, [])"
  using find_first_at_end_gen [of "'' ---''" "CHR '' ''" X] by (simp add: separator_def)




text \<open>
  Claim C9, as the code has it. When the separator does not occur in \<open>X\<close> followed by
  \<^verbatim>\<open>" ---"\<close> (that is, \<open>X\<close> neither contains the separator nor ends in \<^verbatim>\<open>" ---"\<close>),
  the raw names \<open>X\<close> followed by the separator and \<open>X\<close> alone give the same result: on
  success the entry with name \<open>X\<close>, no variants, and the parsed aspects.
\<close>

theorem from_raw_empty_variant:
  assumes "find_first separator (X @ '' ---'') = None"
  shows "from_raw (X @ separator) asp =
           (case build_aspects fmempty asp of
              Inl e \<Rightarrow> Inl e
            | Inr a \<Rightarrow> Inr \<lparr>item = X, data = None, aspects = a\<rparr>) \<and>
         from_raw X asp = from_raw (X @ separator) asp"
proof -
  have "separator \<noteq> []" by (simp add: separator_def)
  then have "find_first separator X = None"
    using assms by (rule find_first_None_prefix)
  moreover have "find_first separator (X @ separator) = Some (X, [])"
    using assms by (rule find_first_at_end)
  ultimately show ?thesis
    by (simp add: from_raw_def partition_str_def)
qed

theorem from_raw_empty_variant_witness:
  "find_first separator (''Water'' @ '' ---'') = None \<and>
   from_raw (''Water'' @ separator) [''2 aqua''] =
     Inr \<lparr>item = ''Water'', data = None, aspects = fmupd ''aqua'' 2 fmempty\<rparr> \<and>
   from_raw ''Water'' [''2 aqua''] = from_raw (''Water'' @ separator) [''2 aqua'']"
proof -
  have a: "find_first separator (''Water'' @ '' ---'') = None"
    by (simp add: separator_def)
  have b: "build_aspects fmempty [''2 aqua''] = Inr (fmupd ''aqua'' 2 fmempty)"
    by (simp add: parse_simps)
  show ?thesis using from_raw_empty_variant [OF a, of "[''2 aqua'']"] a b by simp
qed

text \<open>Claim C9 as stated fails for names in which the appended separator is not the first
  occurrence: \<^verbatim>\<open>partition\<close> splits \<^verbatim>\<open>"a --- --- "\<close> after \<^verbatim>\<open>"a"\<close>, and a name that
  contains the separator is split there with or without the suffix.\<close>

theorem from_raw_empty_variant_counterexample:
  "from_raw (''a ---'' @ '' --- '') [''2 aqua''] =
     Inr \<lparr>item = ''a'', data = Some [''--- ''], aspects = fmupd ''aqua'' 2 fmempty\<rparr> \<and>
   from_raw ''a ---'' [''2 aqua''] =
     Inr \<lparr>item = ''a ---'', data = None, aspects = fmupd ''aqua'' 2 fmempty\<rparr> \<and>
   from_raw (''a --- b'' @ '' --- '') [''2 aqua''] =
     Inr \<lparr>item = ''a'', data = Some [''b --- ''], aspects = fmupd ''aqua'' 2 fmempty\<rparr> \<and>
   from_raw ''a --- b'' [''2 aqua''] =
     Inr \<lparr>item = ''a'', data = Some [''b''], aspects = fmupd ''aqua'' 2 fmempty\<rparr>"
  by (simp add: parse_simps)

section \<open>Properties of \<^verbatim>\<open>load_aspects\<close>\<close>

lemma dedupe_step_alt: "dedupe_step out r = AList.update (item r) (new_group out r) out"
  by (simp add: dedupe_step_def new_group_def split: option.splits)

lemma in_map_aspects: "a \<in> set (map aspects vl) \<longleftrightarrow> (\<exists>v\<in>set vl. aspects v = a)"
  by (induction vl) auto

lemma merge_into_None: "merge_into vl r = None \<longleftrightarrow> (\<forall>v\<in>set vl. aspects v \<noteq> aspects r)"
  by (induction vl) (auto split: option.splits)

lemma merge_one_other: "\<forall>v\<in>set vl. aspects v \<noteq> aspects r \<Longrightarrow> map (merge_one r) vl = vl"
  by (induction vl) (auto simp: merge_one_def)

lemma merge_into_Some:
  "distinct (map aspects vl) \<Longrightarrow> \<exists>v\<in>set vl. aspects v = aspects r \<Longrightarrow>
   merge_into vl r = Some (map (merge_one r) vl)"
proof (induction vl)
  case Nil then show ?case by simp
next
  case (Cons v vl)
  show ?case
  proof (cases "aspects v = aspects r")
    case True
    have "aspects v \<notin> set (map aspects vl)" using Cons.prems(1) by simp
    then have "\<forall>w\<in>set vl. aspects w \<noteq> aspects r"
      unfolding in_map_aspects True by blast
    then have mo: "map (merge_one r) vl = vl" by (rule merge_one_other)
    have h: "merge_one r v = v\<lparr>data := Some (data_or_placeholder v @ data_or_placeholder r)\<rparr>"
      using True by (simp add: merge_one_def)
    show ?thesis using True by (simp add: mo h)
  next
    case False
    then have "\<exists>w\<in>set vl. aspects w = aspects r" using Cons.prems(2) by auto
    then have "merge_into vl r = Some (map (merge_one r) vl)"
      using Cons.IH Cons.prems(1) by simp
    then show ?thesis using False by (simp add: merge_one_def)
  qed
qed

lemma placeholder_merged:
  "C \<noteq> [] \<Longrightarrow> data v = merged_data C \<Longrightarrow>
   data_or_placeholder v = concat (map data_or_placeholder C)"
  by (cases C; cases "tl C") (auto simp: merged_data_def data_or_placeholder_def split: list.splits)

lemma merged_snoc:
  "C \<noteq> [] \<Longrightarrow> merged_data (C @ [r]) =
     Some (concat (map data_or_placeholder C) @ data_or_placeholder r)"
  by (cases C) (auto simp: merged_data_def split: list.splits)

lemma contributing_snoc:
  "contributing (rs @ [r]) n a =
     (if item r = n \<and> aspects r = a then contributing rs n a @ [r] else contributing rs n a)"
  by (simp add: contributing_def)

lemma contributing_empty:
  "contributing rs n a = [] \<longleftrightarrow> (\<forall>r\<in>set rs. \<not> (item r = n \<and> aspects r = a))"
  by (auto simp: contributing_def filter_empty_conv)

lemma group_ok_other:
  "group_ok rs n vl \<Longrightarrow> item r \<noteq> n \<Longrightarrow> group_ok (rs @ [r]) n vl"
  by (simp add: group_ok_def contributing_snoc)

lemma aspects_merge_one [simp]: "aspects (merge_one r v) = aspects v"
  by (simp add: merge_one_def)

lemma item_merge_one [simp]: "item (merge_one r v) = item v"
  by (simp add: merge_one_def)

lemma group_ok_new:
  assumes inv: "dedupe_inv rs out"
  shows "group_ok (rs @ [r]) (item r) (new_group out r)"
proof (cases "map_of out (item r)")
  case None
  have "contributing rs (item r) (aspects r) = []"
    unfolding contributing_empty using inv None by (auto simp: dedupe_inv_def)
  then show ?thesis
    using None by (simp add: new_group_def group_ok_def contributing_snoc merged_data_def)
next
  case (Some vl)
  have ok: "group_ok rs (item r) vl" using inv Some by (simp add: dedupe_inv_def)
  have cover: "\<forall>r'\<in>set rs. item r' = item r \<longrightarrow> (\<exists>v\<in>set vl. aspects v = aspects r')"
    using inv Some by (fastforce simp: dedupe_inv_def)
  show ?thesis
  proof (cases "\<exists>v\<in>set vl. aspects v = aspects r")
    case False
    then have no: "\<forall>v\<in>set vl. aspects v \<noteq> aspects r" by blast
    then have "merge_into vl r = None" by (simp only: merge_into_None)
    then have ng: "new_group out r = vl @ [r]"
      using Some by (simp add: new_group_def)
    have "contributing rs (item r) (aspects r) = []"
      unfolding contributing_empty using cover no by metis
    then show ?thesis
      using ok no unfolding ng group_ok_def
      by (auto simp: contributing_snoc merged_data_def)
  next
    case True
    then have ng: "new_group out r = map (merge_one r) vl"
      using Some ok by (simp add: new_group_def merge_into_Some group_ok_def)
    have d: "distinct (map aspects (map (merge_one r) vl))"
      using ok by (simp add: group_ok_def comp_def)
    have each: "\<And>v. v \<in> set vl \<Longrightarrow>
        item (merge_one r v) = item r \<and>
        contributing (rs @ [r]) (item r) (aspects (merge_one r v)) \<noteq> [] \<and>
        data (merge_one r v) = merged_data (contributing (rs @ [r]) (item r) (aspects (merge_one r v)))"
    proof -
      fix v assume v: "v \<in> set vl"
      then have iv: "item v = item r"
        and ne: "contributing rs (item r) (aspects v) \<noteq> []"
        and dv: "data v = merged_data (contributing rs (item r) (aspects v))"
        using ok by (auto simp: group_ok_def)
      show "item (merge_one r v) = item r \<and>
        contributing (rs @ [r]) (item r) (aspects (merge_one r v)) \<noteq> [] \<and>
        data (merge_one r v) = merged_data (contributing (rs @ [r]) (item r) (aspects (merge_one r v)))"
      proof (cases "aspects v = aspects r")
        case True
        have "data_or_placeholder v = concat (map data_or_placeholder (contributing rs (item r) (aspects v)))"
          using ne dv by (rule placeholder_merged)
        then show ?thesis
          using True iv ne merged_snoc[OF ne, of r]
          by (simp add: contributing_snoc merge_one_def)
      next
        case False
        then show ?thesis using iv ne dv by (simp add: contributing_snoc merge_one_def)
      qed
    qed
    show ?thesis unfolding ng group_ok_def using d each by auto
  qed
qed

lemma new_group_covers:
  assumes "distinct (map aspects vl)" and "map_of out (item r) = Some vl"
  shows "map aspects (new_group out r) = map aspects vl \<or>
         map aspects (new_group out r) = map aspects vl @ [aspects r]"
proof (cases "\<exists>v\<in>set vl. aspects v = aspects r")
  case True
  then have "merge_into vl r = Some (map (merge_one r) vl)"
    using assms(1) by (simp add: merge_into_Some)
  then show ?thesis using assms(2) by (simp add: new_group_def comp_def)
next
  case False
  then have "merge_into vl r = None" by (simp add: merge_into_None)
  then show ?thesis using assms(2) by (simp add: new_group_def)
qed

lemma new_group_has:
  assumes "\<And>wl. map_of out (item r) = Some wl \<Longrightarrow> distinct (map aspects wl)"
  shows "\<exists>v\<in>set (new_group out r). aspects v = aspects r"
proof (cases "map_of out (item r)")
  case None then show ?thesis by (simp add: new_group_def)
next
  case (Some vl)
  show ?thesis
  proof (cases "\<exists>v\<in>set vl. aspects v = aspects r")
    case True
    moreover have "distinct (map aspects vl)" using Some by (rule assms)
    ultimately have "merge_into vl r = Some (map (merge_one r) vl)"
      by (simp add: merge_into_Some)
    then show ?thesis using Some True by (auto simp: new_group_def)
  next
    case False
    then have "merge_into vl r = None" by (simp add: merge_into_None)
    then show ?thesis using Some by (simp add: new_group_def)
  qed
qed

lemma dedupe_step_inv:
  assumes inv: "dedupe_inv rs out"
  shows "dedupe_inv (rs @ [r]) (dedupe_step out r)"
proof -
  let ?out' = "AList.update (item r) (new_group out r) out"
  have m: "map_of ?out' = (map_of out)(item r \<mapsto> new_group out r)"
    by (rule update_conv')
  have d: "distinct (map fst ?out')"
    using inv by (simp add: dedupe_inv_def distinct_update)
  have dist: "\<And>vl. map_of out (item r) = Some vl \<Longrightarrow> distinct (map aspects vl)"
    using inv by (auto simp: dedupe_inv_def group_ok_def)
  have g: "\<forall>n vl. map_of ?out' n = Some vl \<longrightarrow> group_ok (rs @ [r]) n vl"
  proof (intro allI impI)
    fix n vl assume a: "map_of ?out' n = Some vl"
    show "group_ok (rs @ [r]) n vl"
    proof (cases "n = item r")
      case True
      then have "vl = new_group out r" using a m by simp
      then show ?thesis using True group_ok_new[OF inv, of r] by simp
    next
      case False
      then have "map_of out n = Some vl" using a m by simp
      then have "group_ok rs n vl" using inv by (simp add: dedupe_inv_def)
      then show ?thesis using False by (simp add: group_ok_other)
    qed
  qed
  have c: "\<forall>r'\<in>set (rs @ [r]). \<exists>vl. map_of ?out' (item r') = Some vl \<and> (\<exists>v\<in>set vl. aspects v = aspects r')"
  proof
    fix r' assume r': "r' \<in> set (rs @ [r])"
    show "\<exists>vl. map_of ?out' (item r') = Some vl \<and> (\<exists>v\<in>set vl. aspects v = aspects r')"
    proof (cases "r' = r")
      case True
      then show ?thesis using m new_group_has[of out r, OF dist] by simp
    next
      case False
      then have in_rs: "r' \<in> set rs" using r' by simp
      then obtain vl where vl: "map_of out (item r') = Some vl"
        and ex: "\<exists>v\<in>set vl. aspects v = aspects r'"
        using inv unfolding dedupe_inv_def by blast
      show ?thesis
      proof (cases "item r' = item r")
        case False
        then show ?thesis using vl ex m by simp
      next
        case True
        then have vl': "map_of out (item r) = Some vl" using vl by simp
        have "aspects r' \<in> set (map aspects vl)" using ex by (simp only: in_map_aspects)
        moreover have "set (map aspects vl) \<subseteq> set (map aspects (new_group out r))"
          using new_group_covers[OF dist[OF vl'] vl']
        proof
          assume e: "map aspects (new_group out r) = map aspects vl"
          show ?thesis unfolding e by (rule subset_refl)
        next
          assume e: "map aspects (new_group out r) = map aspects vl @ [aspects r]"
          show ?thesis unfolding e by (simp only: set_append Un_upper1)
        qed
        ultimately have "aspects r' \<in> set (map aspects (new_group out r))" by (rule rev_subsetD)
        then have "\<exists>v\<in>set (new_group out r). aspects v = aspects r'"
          by (simp only: in_map_aspects)
        then show ?thesis using True m by simp
      qed
    qed
  qed
  show ?thesis unfolding dedupe_step_alt dedupe_inv_def using d g c by blast
qed

lemma dedupe_inv_Nil: "dedupe_inv [] []"
  by (simp add: dedupe_inv_def)

lemma dedupe_snoc: "dedupe (rs @ [r]) = dedupe_step (dedupe rs) r"
  by (simp add: dedupe_def)

lemma dedupe_invariant: "dedupe_inv rs (dedupe rs)"
proof (induction rs rule: rev_induct)
  case Nil show ?case by (simp add: dedupe_def dedupe_inv_Nil)
next
  case (snoc r rs)
  then show ?case by (simp only: dedupe_snoc dedupe_step_inv)
qed

lemma parse_all_ok:
  "parse_all raw = Inr rs \<Longrightarrow> load_aspects raw = Inr (concat (map snd (dedupe rs)))"
  by (simp add: load_aspects_def)

lemma in_flatten:
  "distinct (map fst out) \<Longrightarrow>
   e \<in> set (concat (map snd out)) \<longleftrightarrow> (\<exists>n vl. map_of out n = Some vl \<and> e \<in> set vl)"
proof
  assume d: "distinct (map fst out)" and "e \<in> set (concat (map snd out))"
  then obtain n vl where "(n, vl) \<in> set out" "e \<in> set vl" by force
  then show "\<exists>n vl. map_of out n = Some vl \<and> e \<in> set vl" using d by (metis map_of_is_SomeI)
next
  assume "\<exists>n vl. map_of out n = Some vl \<and> e \<in> set vl"
  then obtain n vl where "map_of out n = Some vl" "e \<in> set vl" by blast
  then have "(n, vl) \<in> set out" "e \<in> set vl" by (auto dest: map_of_SomeD)
  then show "e \<in> set (concat (map snd out))" by force
qed

lemma distinct_flatten:
  "distinct (map fst out) \<Longrightarrow>
   (\<And>n vl. (n, vl) \<in> set out \<Longrightarrow> distinct (map aspects vl) \<and> (\<forall>v\<in>set vl. item v = n)) \<Longrightarrow>
   distinct (map entry_key (concat (map snd out)))"
proof (induction out)
  case Nil show ?case by simp
next
  case (Cons p out)
  obtain n vl where p: "p = (n, vl)" by (cases p)
  have g: "distinct (map aspects vl)" and it: "\<forall>v\<in>set vl. item v = n"
    using Cons.prems(2)[of n vl] p by simp_all
  have rest: "distinct (map entry_key (concat (map snd out)))"
  proof (rule Cons.IH)
    show "distinct (map fst out)" using Cons.prems(1) by simp
    fix n' vl' assume "(n', vl') \<in> set out"
    then show "distinct (map aspects vl') \<and> (\<forall>v\<in>set vl'. item v = n')"
      using Cons.prems(2)[of n' vl'] by simp
  qed
  have "inj_on entry_key (set vl)"
    using g unfolding distinct_map inj_on_def entry_key_def by simp
  then have here: "distinct (map entry_key vl)"
    using g by (simp add: distinct_map)
  have "\<And>e. e \<in> set (concat (map snd out)) \<Longrightarrow> item e \<noteq> n"
  proof -
    fix e assume "e \<in> set (concat (map snd out))"
    then obtain n' vl' where in': "(n', vl') \<in> set out" and e: "e \<in> set vl'" by force
    then have "item e = n'" using Cons.prems(2)[of n' vl'] by simp
    moreover have "n' \<noteq> n" using in' Cons.prems(1) p by force
    ultimately show "item e \<noteq> n" by simp
  qed
  then have "entry_key ` set vl \<inter> entry_key ` set (concat (map snd out)) = {}"
    using it unfolding entry_key_def by fastforce
  then show ?case using here rest p by simp
qed

lemma dedupe_distinct: "distinct (map entry_key (concat (map snd (dedupe rs))))"
proof (rule distinct_flatten)
  have inv: "dedupe_inv rs (dedupe rs)" by (rule dedupe_invariant)
  then show d: "distinct (map fst (dedupe rs))" by (simp add: dedupe_inv_def)
  fix n vl assume "(n, vl) \<in> set (dedupe rs)"
  then have "map_of (dedupe rs) n = Some vl" using d by (rule map_of_is_SomeI[rotated])
  then have "group_ok rs n vl" using inv by (simp add: dedupe_inv_def)
  then show "distinct (map aspects vl) \<and> (\<forall>v\<in>set vl. item v = n)"
    by (simp add: group_ok_def)
qed

lemma dedupe_covers:
  assumes "r \<in> set rs"
  shows "\<exists>e\<in>set (concat (map snd (dedupe rs))).
           item e = item r \<and> aspects e = aspects r \<and>
           data e = merged_data (contributing rs (item r) (aspects r))"
proof -
  have inv: "dedupe_inv rs (dedupe rs)" by (rule dedupe_invariant)
  then have d: "distinct (map fst (dedupe rs))" by (simp add: dedupe_inv_def)
  from inv assms obtain vl v where vl: "map_of (dedupe rs) (item r) = Some vl"
    and v: "v \<in> set vl" "aspects v = aspects r"
    unfolding dedupe_inv_def by blast
  have "group_ok rs (item r) vl" using inv vl by (simp add: dedupe_inv_def)
  then have "item v = item r" "data v = merged_data (contributing rs (item r) (aspects v))"
    using v(1) by (simp_all add: group_ok_def)
  moreover have "v \<in> set (concat (map snd (dedupe rs)))"
    using in_flatten[OF d] vl v(1) by blast
  ultimately show ?thesis using v(2) by metis
qed

lemma filter_key_single:
  "distinct (map f xs) \<Longrightarrow> x \<in> set xs \<Longrightarrow> filter (\<lambda>y. f y = f x) xs = [x]"
proof (induction xs)
  case Nil then show ?case by simp
next
  case (Cons y ys)
  show ?case
  proof (cases "y = x")
    case True
    have "f x \<notin> set (map f ys)" using Cons.prems(1) True by simp
    then have "\<forall>z\<in>set ys. f z \<noteq> f x" by (metis imageI set_map)
    then have "filter (\<lambda>y. f y = f x) ys = []" by (simp add: filter_empty_conv)
    then show ?thesis using True by simp
  next
    case False
    then have x: "x \<in> set ys" using Cons.prems(2) by simp
    have "f y \<notin> set (map f ys)" using Cons.prems(1) by simp
    then have "f y \<noteq> f x" using x by (metis imageI set_map)
    then show ?thesis using Cons.IH x Cons.prems(1) by simp
  qed
qed

lemma filter_two:
  assumes "i < j" "j < length xs" "P (xs ! i)" "P (xs ! j)"
  shows "\<exists>x y zs. filter P xs = x # y # zs"
proof -
  have xs: "xs = take j xs @ xs ! j # drop (Suc j) xs"
    using assms(2) by (simp add: id_take_nth_drop)
  have "xs ! i \<in> set (take j xs)"
    using assms(1,2) by (metis in_set_conv_nth length_take min.absorb2 less_imp_le nth_take)
  then have "filter P (take j xs) \<noteq> []"
    using assms(3) by (auto simp: filter_empty_conv)
  then obtain x ws where a: "filter P (take j xs) = x # ws" by (cases "filter P (take j xs)") auto
  have "filter P xs = filter P (take j xs) @ xs ! j # filter P (drop (Suc j) xs)"
    using assms(4) by (subst xs) simp
  then show ?thesis using a by (cases ws) auto
qed

lemma merged_data_two: "C = x # y # zs \<Longrightarrow> merged_data C = Some (concat (map data_or_placeholder C))"
  by (simp add: merged_data_def)

lemma parse_all_set:
  "parse_all raw = Inr rs \<Longrightarrow>
   r \<in> set rs \<longleftrightarrow> (\<exists>p\<in>set raw. from_raw (fst p) (snd p) = Inr r)"
proof (induction raw arbitrary: rs)
  case Nil then show ?case by simp
next
  case (Cons p raw)
  from Cons.prems obtain it its where
    a: "from_raw (fst p) (snd p) = Inr it" and b: "parse_all raw = Inr its" and c: "rs = it # its"
    by (auto split: sum.splits)
  show ?case using Cons.IH[OF b] a c by auto
qed

lemma parse_all_nth:
  "parse_all raw = Inr rs \<Longrightarrow>
   length rs = length raw \<and> (\<forall>i<length raw. from_raw (fst (raw ! i)) (snd (raw ! i)) = Inr (rs ! i))"
proof (induction raw arbitrary: rs)
  case Nil then show ?case by simp
next
  case (Cons p raw)
  from Cons.prems obtain it its where
    a: "from_raw (fst p) (snd p) = Inr it" and b: "parse_all raw = Inr its" and c: "rs = it # its"
    by (auto split: sum.splits)
  show ?case using Cons.IH[OF b] a c by (auto simp: nth_Cons')
qed

lemma load_aspects_Inr:
  "load_aspects raw = Inr es \<Longrightarrow> \<exists>rs. parse_all raw = Inr rs \<and> es = concat (map snd (dedupe rs))"
  by (auto simp: load_aspects_def split: sum.splits)

lemmas load_simps = load_aspects_def dedupe_def dedupe_step_def data_or_placeholder_def
  from_raw_def partition_str_def separator_def build_aspects_step
  weight_number_def weight_key_def py_int_def ascii_int_def py_strip_def py_isspace_def py_digits_def
  is_digit_def digit_val_def

lemma water_raw_parsed:
  "parse_all water_raw =
     Inr [\<lparr>item = ''Water'', data = None, aspects = fmupd ''aqua'' 2 fmempty\<rparr>,
          \<lparr>item = ''Water'', data = Some [''bucket''], aspects = fmupd ''aqua'' 2 fmempty\<rparr>]"
  by (simp add: water_raw_def load_simps)

lemma water_raw_loaded:
  "load_aspects water_raw =
     Inr [\<lparr>item = ''Water'', data = Some [''None'', ''bucket''], aspects = fmupd ''aqua'' 2 fmempty\<rparr>]"
  by (simp add: water_raw_parsed load_simps)

lemma aqua_ne: "fmupd ''aqua'' (2::int) fmempty \<noteq> fmupd ''ignis'' 1 (fmupd ''aqua'' 2 fmempty)"
proof
  assume "fmupd ''aqua'' (2::int) fmempty = fmupd ''ignis'' 1 (fmupd ''aqua'' 2 fmempty)"
  then have "fmlookup (fmupd ''aqua'' (2::int) fmempty) ''ignis'' =
             fmlookup (fmupd ''ignis'' 1 (fmupd ''aqua'' 2 fmempty)) ''ignis''"
    by simp
  then show False by simp
qed

lemma steam_raw_loaded:
  "load_aspects steam_raw =
     Inr [\<lparr>item = ''Water'', data = None, aspects = fmupd ''aqua'' 2 fmempty\<rparr>,
          \<lparr>item = ''Water'', data = Some [''hot''],
            aspects = fmupd ''ignis'' 1 (fmupd ''aqua'' 2 fmempty)\<rparr>]"
  by (simp add: steam_raw_def load_simps aqua_ne)

text \<open>
  Claim C4. Let the raw input parse to the records \<open>rs\<close> (in input order) and let two of
  them, at positions \<open>i < j\<close>, have the same name and the same aspects. Then
  \<^verbatim>\<open>load_aspects\<close> returns a list with exactly one entry of that name and those aspects, and
  its variants are the concatenation, in input order, of the variants of all records with that
  name and those aspects, \<^verbatim>\<open>'None'\<close> standing for a record without variants. In particular
  the input \<^verbatim>\<open>{"Water": ["2 aqua"], "Water --- bucket": ["2 aqua"]}\<close> gives the one entry
  Water with variants \<^verbatim>\<open>['None', 'bucket']\<close> and aspects \<^verbatim>\<open>{'aqua': 2}\<close>.
\<close>

theorem load_aspects_merge:
  assumes "parse_all raw = Inr rs" and "i < j" and "j < length rs"
    and "item (rs ! i) = item (rs ! j)" and "aspects (rs ! i) = aspects (rs ! j)"
  shows "(\<exists>es. load_aspects raw = Inr es \<and>
            filter (\<lambda>e. item e = item (rs ! i) \<and> aspects e = aspects (rs ! i)) es =
              [\<lparr>item = item (rs ! i),
                data = Some (concat (map data_or_placeholder
                               (contributing rs (item (rs ! i)) (aspects (rs ! i))))),
                aspects = aspects (rs ! i)\<rparr>]) \<and>
         load_aspects [(''Water'', [''2 aqua'']), (''Water --- bucket'', [''2 aqua''])] =
           Inr [\<lparr>item = ''Water'', data = Some [''None'', ''bucket''],
                 aspects = fmupd ''aqua'' 2 fmempty\<rparr>]"
proof -
  let ?n = "item (rs ! i)" and ?a = "aspects (rs ! i)"
  let ?es = "concat (map snd (dedupe rs))"
  let ?C = "contributing rs ?n ?a"
  have i: "i < length rs" using assms(2,3) by simp
  then have "rs ! i \<in> set rs" by simp
  then obtain e where e: "e \<in> set ?es" "item e = ?n" "aspects e = ?a" "data e = merged_data ?C"
    using dedupe_covers[of "rs ! i" rs] by blast
  have "\<exists>x y zs. ?C = x # y # zs"
    unfolding contributing_def using assms(2,3) by (rule filter_two) (simp_all add: assms(4,5))
  then have "merged_data ?C = Some (concat (map data_or_placeholder ?C))"
    using merged_data_two by blast
  then have ev: "e = \<lparr>item = ?n, data = Some (concat (map data_or_placeholder ?C)), aspects = ?a\<rparr>"
    using e by simp
  have "filter (\<lambda>y. entry_key y = entry_key e) ?es = [e]"
    using dedupe_distinct e(1) by (rule filter_key_single)
  then have "filter (\<lambda>y. item y = ?n \<and> aspects y = ?a) ?es = [e]"
    using e(2,3) by (simp add: entry_key_def)
  then show ?thesis
    using parse_all_ok[OF assms(1)] ev water_raw_loaded by (simp add: water_raw_def)
qed

theorem load_aspects_merge_witness:
  "parse_all water_raw =
     Inr [\<lparr>item = ''Water'', data = None, aspects = fmupd ''aqua'' 2 fmempty\<rparr>,
          \<lparr>item = ''Water'', data = Some [''bucket''], aspects = fmupd ''aqua'' 2 fmempty\<rparr>] \<and>
   (\<exists>es. load_aspects water_raw = Inr es \<and>
      filter (\<lambda>e. item e = ''Water'' \<and> aspects e = fmupd ''aqua'' 2 fmempty) es =
        [\<lparr>item = ''Water'', data = Some [''None'', ''bucket''],
          aspects = fmupd ''aqua'' 2 fmempty\<rparr>])"
proof -
  let ?r0 = "\<lparr>item = ''Water'', data = None, aspects = fmupd ''aqua'' 2 fmempty\<rparr>"
  let ?r1 = "\<lparr>item = ''Water'', data = Some [''bucket''], aspects = fmupd ''aqua'' 2 fmempty\<rparr>"
  have p: "parse_all water_raw = Inr [?r0, ?r1]" by (rule water_raw_parsed)
  have l: "(0::nat) < 1" "1 < length [?r0, ?r1]" by simp_all
  have n: "item ([?r0, ?r1] ! 0) = item ([?r0, ?r1] ! 1)" by simp
  have a: "aspects ([?r0, ?r1] ! 0) = aspects ([?r0, ?r1] ! 1)" by simp
  show ?thesis
    using load_aspects_merge [OF p l n a] p
    by (simp add: contributing_def data_or_placeholder_def)
qed

text \<open>
  Claim C5. In the result of \<^verbatim>\<open>load_aspects\<close> no two entries have the same name and equal
  aspects, and two raw records that parse to the same name with different aspects give two
  different entries of that name in the result, one with the aspects of each.
\<close>

theorem load_aspects_no_duplicates:
  assumes "load_aspects raw = Inr es"
  shows "distinct (map entry_key es) \<and>
         (\<forall>p\<in>set raw. \<forall>q\<in>set raw. \<forall>r1 r2.
            from_raw (fst p) (snd p) = Inr r1 \<and> from_raw (fst q) (snd q) = Inr r2 \<and>
            item r1 = item r2 \<and> aspects r1 \<noteq> aspects r2 \<longrightarrow>
            (\<exists>e1\<in>set es. \<exists>e2\<in>set es. e1 \<noteq> e2 \<and>
               item e1 = item r1 \<and> aspects e1 = aspects r1 \<and>
               item e2 = item r1 \<and> aspects e2 = aspects r2))"
proof -
  from assms obtain rs where rs: "parse_all raw = Inr rs" and es: "es = concat (map snd (dedupe rs))"
    using load_aspects_Inr by blast
  have d: "distinct (map entry_key es)" unfolding es by (rule dedupe_distinct)
  have "\<And>p q r1 r2. p \<in> set raw \<Longrightarrow> q \<in> set raw \<Longrightarrow>
          from_raw (fst p) (snd p) = Inr r1 \<Longrightarrow> from_raw (fst q) (snd q) = Inr r2 \<Longrightarrow>
          item r1 = item r2 \<Longrightarrow> aspects r1 \<noteq> aspects r2 \<Longrightarrow>
          \<exists>e1\<in>set es. \<exists>e2\<in>set es. e1 \<noteq> e2 \<and>
               item e1 = item r1 \<and> aspects e1 = aspects r1 \<and>
               item e2 = item r1 \<and> aspects e2 = aspects r2"
  proof -
    fix p q r1 r2
    assume p: "p \<in> set raw" and q: "q \<in> set raw"
      and f1: "from_raw (fst p) (snd p) = Inr r1" and f2: "from_raw (fst q) (snd q) = Inr r2"
      and n: "item r1 = item r2" and a: "aspects r1 \<noteq> aspects r2"
    have "r1 \<in> set rs" using parse_all_set[OF rs, of r1] p f1 by blast
    then obtain e1 where e1: "e1 \<in> set es" "item e1 = item r1" "aspects e1 = aspects r1"
      unfolding es using dedupe_covers[of r1 rs] by blast
    have "r2 \<in> set rs" using parse_all_set[OF rs, of r2] q f2 by blast
    then obtain e2 where e2: "e2 \<in> set es" "item e2 = item r2" "aspects e2 = aspects r2"
      unfolding es using dedupe_covers[of r2 rs] by blast
    have "e1 \<noteq> e2" using a e1(3) e2(3) by auto
    then show "\<exists>e1\<in>set es. \<exists>e2\<in>set es. e1 \<noteq> e2 \<and>
               item e1 = item r1 \<and> aspects e1 = aspects r1 \<and>
               item e2 = item r1 \<and> aspects e2 = aspects r2"
      using e1 e2 n by metis
  qed
  then show ?thesis using d by blast
qed

theorem load_aspects_no_duplicates_witness:
  "load_aspects steam_raw =
     Inr [\<lparr>item = ''Water'', data = None, aspects = fmupd ''aqua'' 2 fmempty\<rparr>,
          \<lparr>item = ''Water'', data = Some [''hot''],
            aspects = fmupd ''ignis'' 1 (fmupd ''aqua'' 2 fmempty)\<rparr>] \<and>
   distinct (map entry_key
     [\<lparr>item = ''Water'', data = None, aspects = fmupd ''aqua'' 2 fmempty\<rparr>,
      \<lparr>item = ''Water'', data = Some [''hot''],
        aspects = fmupd ''ignis'' 1 (fmupd ''aqua'' 2 fmempty)\<rparr>]) \<and>
   (\<exists>e1\<in>set [\<lparr>item = ''Water'', data = None, aspects = fmupd ''aqua'' 2 fmempty\<rparr>,
               \<lparr>item = ''Water'', data = Some [''hot''],
                 aspects = fmupd ''ignis'' 1 (fmupd ''aqua'' 2 fmempty)\<rparr>].
    \<exists>e2\<in>set [\<lparr>item = ''Water'', data = None, aspects = fmupd ''aqua'' 2 fmempty\<rparr>,
               \<lparr>item = ''Water'', data = Some [''hot''],
                 aspects = fmupd ''ignis'' 1 (fmupd ''aqua'' 2 fmempty)\<rparr>].
      e1 \<noteq> e2 \<and> item e1 = ''Water'' \<and> aspects e1 = fmupd ''aqua'' 2 fmempty \<and>
      item e2 = ''Water'' \<and> aspects e2 = fmupd ''ignis'' 1 (fmupd ''aqua'' 2 fmempty))"
proof -
  let ?r1 = "\<lparr>item = ''Water'', data = None, aspects = fmupd ''aqua'' 2 fmempty\<rparr>"
  let ?r2 = "\<lparr>item = ''Water'', data = Some [''hot''],
              aspects = fmupd ''ignis'' 1 (fmupd ''aqua'' 2 fmempty)\<rparr>"
  let ?p = "(''Water'', [''2 aqua''])" and ?q = "(''Water --- hot'', [''2 aqua'', ''1 ignis''])"
  note T = load_aspects_no_duplicates [OF steam_raw_loaded]
  have p: "?p \<in> set steam_raw" and q: "?q \<in> set steam_raw"
    by (simp_all add: steam_raw_def)
  have f: "from_raw (fst ?p) (snd ?p) = Inr ?r1 \<and> from_raw (fst ?q) (snd ?q) = Inr ?r2 \<and>
           item ?r1 = item ?r2 \<and> aspects ?r1 \<noteq> aspects ?r2"
    by (simp add: load_simps aqua_ne)
  have "\<exists>e1\<in>set [?r1, ?r2]. \<exists>e2\<in>set [?r1, ?r2]. e1 \<noteq> e2 \<and>
          item e1 = item ?r1 \<and> aspects e1 = aspects ?r1 \<and>
          item e2 = item ?r1 \<and> aspects e2 = aspects ?r2"
    using T [THEN conjunct2, rule_format, OF p q f] .
  then show ?thesis using T steam_raw_loaded by simp
qed

section \<open>The exact query with a repeated name\<close>

text \<open>
  Claim C3: an entry is returned by the exact conjunctive query for the names \<open>S\<close> if and
  only if the key set of its aspects is the set of the names in \<open>S\<close>. The code does not meet
  it when a name is repeated: \<^verbatim>\<open>len(search)\<close> counts the repetition, where the help of
  \<^verbatim>\<open>--perfect\<close> promises the items that only contain the given aspects. On the catalogue
  with Water \<^verbatim>\<open>{'aqua': 2}\<close> and Lava \<^verbatim>\<open>{'aqua': 2, 'ignis': 1}\<close>, the query
  \<^verbatim>\<open>["aqua", "aqua"]\<close> returns Lava, whose keys are not the requested set, and does not
  return Water, whose keys are.
\<close>

theorem search_aspects_exact_repeated_name:
  "load_aspects catalogue_raw = Inr [water, lava] \<and>
   map (objs catalogue_store) (items catalogue_store) = [water, lava] \<and>
   fst (search_aspects [''aqua'', ''aqua''] catalogue_store False True) = [1] \<and>
   objs catalogue_store 1 = lava \<and>
   fset (fmdom (aspects lava)) \<noteq> set [''aqua'', ''aqua''] \<and>
   objs catalogue_store 0 = water \<and>
   fset (fmdom (aspects water)) = set [''aqua'', ''aqua'']"
proof -
  have "load_aspects catalogue_raw = Inr [water, lava]"
    by (simp add: catalogue_raw_def water_def lava_def load_simps)
  moreover have "fst (search_aspects [''aqua'', ''aqua''] catalogue_store False True) = [1]"
    by (simp add: catalogue_store_def demo_simps)
  moreover have "fset (fmdom (aspects lava)) \<noteq> set [''aqua'', ''aqua'']"
    by (simp add: lava_def)
  moreover have "fset (fmdom (aspects water)) = set [''aqua'', ''aqua'']"
    by (simp add: water_def)
  ultimately show ?thesis by (simp add: catalogue_store_def)
qed

end
